theory Spec2Isabelle
  imports Main "HOL-Library.AList"
begin

section \<open>Dependency graphs built from annotated sentences\<close>

text \<open>
  The development embeds \<^verbatim>\<open>graph-based/11-visualize-graph.py\<close>:
  \<^verbatim>\<open>build_dependency_graph\<close>, which turns one parsed CoNLL-U sentence into a
  directed graph, and \<^verbatim>\<open>visualize_graph\<close>, which draws that graph, writes the
  picture to a file and shows it.
\<close>

subsection \<open>Tokens\<close>

text \<open>
  A token is read through the keys \<^verbatim>\<open>id\<close>, \<^verbatim>\<open>form\<close>, \<^verbatim>\<open>upos\<close>,
  \<^verbatim>\<open>head\<close> and \<^verbatim>\<open>deprel\<close>. The head may be Python's \<^verbatim>\<open>None\<close>, hence
  an option. Python integers are unbounded, hence \<open>int\<close>.
\<close>

record token =
  token_id :: int
  form :: string
  upos :: string
  head :: "int option"
  deprel :: string

subsection \<open>The directed graph\<close>

text \<open>
  An attribute dictionary maps attribute names to values. Python dictionaries keep
  insertion order and assigning to a key that is present keeps its position, which is
  what \<open>AList.update\<close> does on an association list.

  The graph object keeps a dictionary from node to attribute dictionary and, per
  source node, a dictionary from target node to the attribute dictionary of the edge.
  The latter is kept here as one association list keyed by the pair (source, target):
  a directed graph holds at most one edge per ordered pair, and adding an edge that is
  present updates its attributes.
\<close>

type_synonym attrs = "(string \<times> string) list"

record digraph =
  nodes :: "(int \<times> attrs) list"
  edges :: "((int \<times> int) \<times> attrs) list"

definition DiGraph :: digraph where
  "DiGraph = \<lparr>nodes = [], edges = []\<rparr>"

text \<open>\<^verbatim>\<open>d.update(attr)\<close>: every pair of \<open>attr\<close> is assigned into \<open>d\<close>, in order.\<close>

fun dict_update :: "attrs \<Rightarrow> attrs \<Rightarrow> attrs" where
  "dict_update d [] = d"
| "dict_update d ((k, v) # attr) = dict_update (AList.update k v d) attr"

definition has_node :: "digraph \<Rightarrow> int \<Rightarrow> bool" where
  "has_node G n = (n \<in> set (map fst (nodes G)))"

text \<open>
  \<^verbatim>\<open>G.add_node(n, **attr)\<close>: a node that is absent is entered with a fresh attribute
  dictionary, which then receives \<open>attr\<close>; a node that is present has its dictionary
  updated.
\<close>

definition add_node :: "int \<Rightarrow> attrs \<Rightarrow> digraph \<Rightarrow> digraph" where
  "add_node n attr G =
     (case map_of (nodes G) n of
        None \<Rightarrow> G\<lparr>nodes := nodes G @ [(n, dict_update [] attr)]\<rparr>
      | Some d \<Rightarrow> G\<lparr>nodes := AList.update n (dict_update d attr) (nodes G)\<rparr>)"

text \<open>
  \<^verbatim>\<open>G.add_edge(u, v, **attr)\<close>: an endpoint that is not yet a node is entered as a
  node with an empty attribute dictionary, first \<open>u\<close>, then \<open>v\<close>. The edge's
  dictionary is the one already stored for \<open>(u, v)\<close>, or a fresh one, updated by
  \<open>attr\<close>.
\<close>

definition ensure_node :: "int \<Rightarrow> digraph \<Rightarrow> digraph" where
  "ensure_node n G = (if has_node G n then G else G\<lparr>nodes := nodes G @ [(n, [])]\<rparr>)"

definition add_edge :: "int \<Rightarrow> int \<Rightarrow> attrs \<Rightarrow> digraph \<Rightarrow> digraph" where
  "add_edge u v attr G =
     (let G' = ensure_node v (ensure_node u G);
          datadict = (case map_of (edges G') (u, v) of None \<Rightarrow> [] | Some d \<Rightarrow> d)
      in G'\<lparr>edges := AList.update (u, v) (dict_update datadict attr) (edges G')\<rparr>)"

subsection \<open>Building the graph\<close>

text \<open>
  The test \<^verbatim>\<open>head is not None and head != 0\<close> of the loop body.
\<close>

definition has_governor :: "token \<Rightarrow> bool" where
  "has_governor t = (case head t of None \<Rightarrow> False | Some h \<Rightarrow> h \<noteq> 0)"

text \<open>One pass of the loop body for one token.\<close>

definition build_step :: "token \<Rightarrow> digraph \<Rightarrow> digraph" where
  "build_step t G =
     (let G' = add_node (token_id t) [(''label'', form t @ ''/'' @ upos t)] G
      in case head t of
           None \<Rightarrow> G'
         | Some h \<Rightarrow> if h \<noteq> 0 then add_edge h (token_id t) [(''label'', deprel t)] G' else G')"

fun build_loop :: "token list \<Rightarrow> digraph \<Rightarrow> digraph" where
  "build_loop [] G = G"
| "build_loop (t # ts) G = build_loop ts (build_step t G)"

text \<open>
  The outcome of a call is an error or a value. \<open>InvalidInput\<close> is the error the
  specification names for the builder. Any other exception, such as those that the
  operating system and the libraries raise during rendering, is \<open>Exception\<close> with the
  name of its class.
\<close>

datatype error = InvalidInput | Exception string

text \<open>
  \<^verbatim>\<open>build_dependency_graph(sentence)\<close> creates an empty graph, runs the loop over
  the tokens and returns the graph. The body has no \<^verbatim>\<open>raise\<close> and no early
  \<^verbatim>\<open>return\<close>.
\<close>

definition build_dependency_graph :: "token list \<Rightarrow> error + digraph" where
  "build_dependency_graph sentence = Inr (build_loop sentence DiGraph)"

text \<open>
  The edges the loop is meant to insert, one per token that passes the test, in the
  order of the tokens. The loop is compared with this list below.
\<close>

definition dependency_edges :: "token list \<Rightarrow> ((int \<times> int) \<times> attrs) list" where
  "dependency_edges ts =
     concat (map (\<lambda>t. case head t of
                          None \<Rightarrow> []
                        | Some h \<Rightarrow> if h \<noteq> 0 then [((h, token_id t), [(''label'', deprel t)])] else []) ts)"

text \<open>
  \<^verbatim>\<open>G.in_degree(n)\<close>: the number of edges that end in \<open>n\<close>.
\<close>

definition in_degree :: "digraph \<Rightarrow> int \<Rightarrow> nat" where
  "in_degree G n = length (filter (\<lambda>e. snd (fst e) = n) (edges G))"

subsection \<open>Rendering\<close>

text \<open>
  \<^verbatim>\<open>visualize_graph(G, sent_id, output_dir)\<close> has no \<^verbatim>\<open>return\<close> statement. All
  it does is call the operating system, networkx, pyplot and the logger, inside one
  \<^verbatim>\<open>try\<close> block whose handler logs the exception and raises it again. What those
  calls do is not code of this program, so the model records which calls are made, in
  which order and with which arguments, and takes the outcome of every call from
  outside.

  A call is recorded with the arguments that vary or that fix the output: the
  directory, the graph, the label dictionaries, the title, the path, format and
  resolution of the file, the messages. The positions returned by the layout call are
  passed on to the four drawing calls; like the fixed colours and sizes they are not
  part of the record.
\<close>

datatype call =
    Makedirs string
  | SpringLayout digraph
  | PltFigure "nat \<times> nat"
  | DrawNodes digraph
  | DrawEdges digraph
  | DrawLabels "(int \<times> string) list"
  | DrawEdgeLabels "((int \<times> int) \<times> string) list"
  | PltTitle string
  | PltAxisOff
  | PltTightLayout
  | PltSavefig string string nat
  | LoggerInfo string
  | PltShow
  | PltClose
  | LoggerError error

text \<open>
  The surroundings of a run: given the calls made so far, whether the next call raises,
  and what.
\<close>

type_synonym surroundings = "call list \<Rightarrow> call \<Rightarrow> error option"

text \<open>
  \<^verbatim>\<open>nx.get_node_attributes(G, name)\<close> and \<^verbatim>\<open>nx.get_edge_attributes(G, name)\<close>:
  the nodes (edges) whose attribute dictionary has the key, with its value.
\<close>

definition get_attributes :: "('k \<times> attrs) list \<Rightarrow> string \<Rightarrow> ('k \<times> string) list" where
  "get_attributes items name =
     List.map_filter (\<lambda>(k, d). map_option (\<lambda>v. (k, v)) (map_of d name)) items"

definition get_node_attributes :: "digraph \<Rightarrow> string \<Rightarrow> (int \<times> string) list" where
  "get_node_attributes G name = get_attributes (nodes G) name"

definition get_edge_attributes :: "digraph \<Rightarrow> string \<Rightarrow> ((int \<times> int) \<times> string) list" where
  "get_edge_attributes G name = get_attributes (edges G) name"

text \<open>
  \<^verbatim>\<open>os.path.join\<close> depends on the platform and is a parameter of the model.
  \<open>posixpath_join\<close> is the POSIX one for two components.
\<close>

definition posixpath_join :: "string \<Rightarrow> string \<Rightarrow> string" where
  "posixpath_join a b =
     (if b \<noteq> [] \<and> hd b = CHR ''/'' then b
      else if a = [] \<or> last a = CHR ''/'' then a @ b
      else a @ ''/'' @ b)"

text \<open>
  The statements of the \<^verbatim>\<open>try\<close> block, in the order of the source. The two label
  dictionaries are computed between the drawing calls that precede and use them.
\<close>

definition try_block ::
  "(string \<Rightarrow> string \<Rightarrow> string) \<Rightarrow> digraph \<Rightarrow> string \<Rightarrow> string \<Rightarrow> call list" where
  "try_block join G sent_id output_dir =
     (let output_path = join output_dir (''dependency_graph_'' @ sent_id @ ''.png'');
          node_labels = get_node_attributes G ''label'';
          edge_labels = get_edge_attributes G ''label''
      in [Makedirs output_dir,
          SpringLayout G,
          PltFigure (12, 8),
          DrawNodes G,
          DrawEdges G,
          DrawLabels node_labels,
          DrawEdgeLabels edge_labels,
          PltTitle (''Dependency Graph for Sentence ID: '' @ sent_id),
          PltAxisOff,
          PltTightLayout,
          PltSavefig output_path ''png'' 300,
          LoggerInfo (''Saved graph to '' @ output_path),
          PltShow,
          PltClose])"

text \<open>
  The calls are made one after the other. The first that raises ends the block; it is
  recorded as made, and the calls after it are not made.
\<close>

fun perform :: "surroundings \<Rightarrow> call list \<Rightarrow> call list \<Rightarrow> error option \<times> call list" where
  "perform env made [] = (None, made)"
| "perform env made (c # cs) =
     (case env made c of
        Some e \<Rightarrow> (Some e, made @ [c])
      | None \<Rightarrow> perform env (made @ [c]) cs)"

text \<open>
  The function returns Python's \<^verbatim>\<open>None\<close> or raises: the first component of the
  result is the exception, if any, the second the calls made. The handler logs the
  exception and raises it again; if the logging call raises, that exception leaves the
  function instead.
\<close>

definition visualize_graph ::
  "(string \<Rightarrow> string \<Rightarrow> string) \<Rightarrow> surroundings \<Rightarrow> digraph \<Rightarrow> string \<Rightarrow> string
     \<Rightarrow> error option \<times> call list" where
  "visualize_graph join env G sent_id output_dir =
     (case perform env [] (try_block join G sent_id output_dir) of
        (None, made) \<Rightarrow> (None, made)
      | (Some e, made) \<Rightarrow>
          (case env made (LoggerError e) of
             None \<Rightarrow> (Some e, made @ [LoggerError e])
           | Some e' \<Rightarrow> (Some e', made @ [LoggerError e])))"

subsection \<open>Sample inputs\<close>

text \<open>
  The two-token sentence "Dogs run", a one-token sentence whose head names no token,
  and surroundings in which no call raises.
\<close>

definition example_sentence :: "token list" where
  "example_sentence =
     [\<lparr>token_id = 1, form = ''Dogs'', upos = ''NOUN'', head = Some 2, deprel = ''nsubj''\<rparr>,
      \<lparr>token_id = 2, form = ''run'', upos = ''VERB'', head = Some 0, deprel = ''root''\<rparr>]"

definition dangling_sentence :: "token list" where
  "dangling_sentence =
     [\<lparr>token_id = 1, form = ''X'', upos = ''NOUN'', head = Some 99, deprel = ''dep''\<rparr>]"

definition no_failure :: surroundings where
  "no_failure made c = None"

section \<open>Auxiliary facts\<close>

lemmas build_defs = build_dependency_graph_def DiGraph_def build_step_def add_node_def
  add_edge_def ensure_node_def has_node_def

subsection \<open>Nodes and edges after the graph operations\<close>

lemma update_absent: "k \<notin> fst ` set al \<Longrightarrow> AList.update k v al = al @ [(k, v)]"
  by (induction al) auto

lemma nodes_add_node:
  "nodes (add_node n attr G) =
     AList.update n (dict_update (case map_of (nodes G) n of None \<Rightarrow> [] | Some d \<Rightarrow> d) attr) (nodes G)"
proof (cases "map_of (nodes G) n")
  case None
  then have "n \<notin> fst ` set (nodes G)" by (simp add: map_of_eq_None_iff)
  with None show ?thesis by (simp add: add_node_def update_absent)
next
  case (Some d)
  then show ?thesis by (simp add: add_node_def)
qed

lemma edges_add_node [simp]: "edges (add_node n attr G) = edges G"
  by (simp add: add_node_def split: option.splits)

lemma edges_ensure_node [simp]: "edges (ensure_node n G) = edges G"
  by (simp add: ensure_node_def)

lemma keys_add_node [simp]:
  "fst ` set (nodes (add_node n attr G)) = insert n (fst ` set (nodes G))"
  by (simp add: nodes_add_node dom_update)

lemma keys_ensure_node [simp]:
  "fst ` set (nodes (ensure_node n G)) = insert n (fst ` set (nodes G))"
  by (auto simp: ensure_node_def has_node_def)

lemma distinct_add_node:
  "distinct (map fst (nodes G)) \<Longrightarrow> distinct (map fst (nodes (add_node n attr G)))"
  by (simp add: nodes_add_node distinct_update)

lemma distinct_ensure_node:
  "distinct (map fst (nodes G)) \<Longrightarrow> distinct (map fst (nodes (ensure_node n G)))"
  by (auto simp: ensure_node_def has_node_def)

lemma nodes_add_edge [simp]:
  "nodes (add_edge u v attr G) = nodes (ensure_node v (ensure_node u G))"
  by (simp add: add_edge_def Let_def)

lemma edges_add_edge:
  "edges (add_edge u v attr G) =
     AList.update (u, v) (dict_update (case map_of (edges G) (u, v) of None \<Rightarrow> [] | Some d \<Rightarrow> d) attr) (edges G)"
  by (simp add: add_edge_def Let_def)

lemma keys_build_step:
  "fst ` set (nodes (build_step t G)) =
     insert (token_id t) (fst ` set (nodes G)) \<union> (case head t of None \<Rightarrow> {} | Some h \<Rightarrow> if h \<noteq> 0 then {h} else {})"
  by (auto simp: build_step_def Let_def split: option.splits)

lemma distinct_build_step:
  "distinct (map fst (nodes G)) \<Longrightarrow> distinct (map fst (nodes (build_step t G)))"
  by (auto simp: build_step_def Let_def distinct_add_node distinct_ensure_node split: option.splits)

lemma distinct_build_loop:
  "distinct (map fst (nodes G)) \<Longrightarrow> distinct (map fst (nodes (build_loop ts G)))"
  by (induction ts arbitrary: G) (auto simp: distinct_build_step)

lemma keys_build_loop:
  "fst ` set (nodes (build_loop ts G)) =
     fst ` set (nodes G) \<union> token_id ` set ts \<union> {h. \<exists>t \<in> set ts. head t = Some h \<and> h \<noteq> 0}"
proof (induction ts arbitrary: G)
  case Nil
  then show ?case by simp
next
  case (Cons t ts)
  show ?case
    unfolding build_loop.simps Cons.IH keys_build_step
    by (auto split: option.splits if_splits)
qed

lemma edges_build_step_fresh:
  assumes "\<forall>e \<in> set (edges G). snd (fst e) \<noteq> token_id t"
  shows "edges (build_step t G) = edges G @ dependency_edges [t]"
proof (cases "head t")
  case None
  then show ?thesis by (simp add: build_step_def dependency_edges_def)
next
  case (Some h)
  show ?thesis
  proof (cases "h = 0")
    case True
    with Some show ?thesis by (simp add: build_step_def dependency_edges_def)
  next
    case False
    from assms have absent: "(h, token_id t) \<notin> fst ` set (edges G)" by force
    then have "map_of (edges G) (h, token_id t) = None"
      by (simp add: map_of_eq_None_iff)
    with Some False absent show ?thesis
      by (simp add: build_step_def dependency_edges_def edges_add_edge update_absent)
  qed
qed

lemma dependency_edges_Cons:
  "dependency_edges (t # ts) = dependency_edges [t] @ dependency_edges ts"
  by (simp add: dependency_edges_def)

lemma dependency_edges_target:
  "e \<in> set (dependency_edges ts) \<Longrightarrow> snd (fst e) \<in> token_id ` set ts"
  by (auto simp: dependency_edges_def split: option.splits if_splits)

lemma edges_build_loop:
  assumes "distinct (map token_id ts)"
    and "\<forall>e \<in> set (edges G). snd (fst e) \<notin> token_id ` set ts"
  shows "edges (build_loop ts G) = edges G @ dependency_edges ts"
  using assms
proof (induction ts arbitrary: G)
  case Nil
  then show ?case by (simp add: dependency_edges_def)
next
  case (Cons t ts)
  from Cons.prems have fresh: "\<forall>e \<in> set (edges G). snd (fst e) \<noteq> token_id t" by simp
  have step: "edges (build_step t G) = edges G @ dependency_edges [t]"
    by (rule edges_build_step_fresh [OF fresh])
  have later: "\<forall>e \<in> set (edges (build_step t G)). snd (fst e) \<notin> token_id ` set ts"
  proof
    fix e assume "e \<in> set (edges (build_step t G))"
    then consider "e \<in> set (edges G)" | "e \<in> set (dependency_edges [t])"
      by (auto simp: step)
    then show "snd (fst e) \<notin> token_id ` set ts"
    proof cases
      case 1
      with Cons.prems show ?thesis by auto
    next
      case 2
      then have "snd (fst e) = token_id t" by (auto dest: dependency_edges_target)
      with Cons.prems show ?thesis by auto
    qed
  qed
  from Cons.prems have "distinct (map token_id ts)" by simp
  from Cons.IH [OF this later] show ?case
    by (simp add: step dependency_edges_Cons [of t ts])
qed


lemma edges_build:
  "distinct (map token_id ts) \<Longrightarrow> edges (build_loop ts DiGraph) = dependency_edges ts"
  using edges_build_loop [of ts DiGraph] by (simp add: DiGraph_def)

lemma length_dependency_edges:
  "length (dependency_edges ts) = length (filter has_governor ts)"
  by (induction ts) (auto simp: dependency_edges_def has_governor_def split: option.splits)

lemma dependency_edges_iff:
  "e \<in> set (dependency_edges ts) \<longleftrightarrow>
     (\<exists>t \<in> set ts. \<exists>h. head t = Some h \<and> h \<noteq> 0 \<and> e = ((h, token_id t), [(''label'', deprel t)]))"
proof (induction ts)
  case Nil
  then show ?case by (simp add: dependency_edges_def)
next
  case (Cons t ts)
  have "e \<in> set (dependency_edges [t]) \<longleftrightarrow>
          (\<exists>h. head t = Some h \<and> h \<noteq> 0 \<and> e = ((h, token_id t), [(''label'', deprel t)]))"
    by (cases "head t") (auto simp: dependency_edges_def)
  with Cons.IH show ?case
    by (simp add: dependency_edges_Cons [of t ts])
qed

lemma distinct_dependency_edges:
  "distinct (map token_id ts) \<Longrightarrow> distinct (map fst (dependency_edges ts))"
proof (induction ts)
  case Nil
  then show ?case by (simp add: dependency_edges_def)
next
  case (Cons t ts)
  have "k \<notin> fst ` set (dependency_edges ts)" if "k \<in> fst ` set (dependency_edges [t])" for k
  proof
    assume "k \<in> fst ` set (dependency_edges ts)"
    then have "snd k \<in> token_id ` set ts" by (auto dest: dependency_edges_target)
    moreover from that have "snd k = token_id t" by (auto dest: dependency_edges_target)
    ultimately show False using Cons.prems by auto
  qed
  moreover have "distinct (map fst (dependency_edges [t]))"
    by (simp add: dependency_edges_def split: option.splits)
  ultimately show ?case
    using Cons by (auto simp: dependency_edges_Cons [of t ts])
qed

lemma filter_key_le_one:
  "distinct (map f xs) \<Longrightarrow> length (filter (\<lambda>x. f x = n) xs) \<le> Suc 0"
proof (induction xs)
  case Nil
  then show ?case by simp
next
  case (Cons x xs)
  show ?case
  proof (cases "f x = n")
    case True
    from Cons.prems have "f x \<notin> f ` set xs" by simp
    with True have "\<forall>y \<in> set xs. f y \<noteq> n" by blast
    then have "filter (\<lambda>x. f x = n) xs = []" by (simp add: filter_empty_conv)
    with True show ?thesis by simp
  next
    case False
    with Cons show ?thesis by simp
  qed
qed

lemma in_degree_dependency_edges:
  "length (filter (\<lambda>e. snd (fst e) = n) (dependency_edges ts)) \<le> length (filter (\<lambda>t. token_id t = n) ts)"
proof (induction ts)
  case Nil
  then show ?case by (simp add: dependency_edges_def)
next
  case (Cons t ts)
  have "length (filter (\<lambda>e. snd (fst e) = n) (dependency_edges [t])) \<le> (if token_id t = n then 1 else 0)"
    by (simp add: dependency_edges_def split: option.splits)
  with Cons show ?case
    by (auto simp: dependency_edges_Cons [of t ts] split: if_splits)
qed

lemma edges_closed_build_step:
  assumes "\<forall>k \<in> fst ` set (edges G). fst k \<in> fst ` set (nodes G) \<and> snd k \<in> fst ` set (nodes G)"
  shows "\<forall>k \<in> fst ` set (edges (build_step t G)).
           fst k \<in> fst ` set (nodes (build_step t G)) \<and> snd k \<in> fst ` set (nodes (build_step t G))"
proof (cases "has_governor t")
  case False
  then have "edges (build_step t G) = edges G"
    by (auto simp: build_step_def has_governor_def split: option.splits)
  with assms show ?thesis by (auto simp: keys_build_step)
next
  case True
  then obtain h where h: "head t = Some h" "h \<noteq> 0"
    by (auto simp: has_governor_def split: option.splits)
  then have "fst ` set (edges (build_step t G)) = insert (h, token_id t) (fst ` set (edges G))"
    by (simp add: build_step_def edges_add_edge dom_update)
  moreover from h have "fst ` set (nodes (build_step t G)) = insert (token_id t) (insert h (fst ` set (nodes G)))"
    by (auto simp: keys_build_step)
  ultimately show ?thesis using assms by auto
qed

lemma edges_closed_build_loop:
  assumes "\<forall>k \<in> fst ` set (edges G). fst k \<in> fst ` set (nodes G) \<and> snd k \<in> fst ` set (nodes G)"
  shows "\<forall>k \<in> fst ` set (edges (build_loop ts G)).
           fst k \<in> fst ` set (nodes (build_loop ts G)) \<and> snd k \<in> fst ` set (nodes (build_loop ts G))"
  using assms
proof (induction ts arbitrary: G)
  case Nil
  then show ?case by simp
next
  case (Cons t ts)
  show ?case
    unfolding build_loop.simps
    by (rule Cons.IH) (rule edges_closed_build_step [OF Cons.prems])
qed

section \<open>Properties of the builder\<close>

subsection \<open>The empty sentence\<close>

text \<open>
  C1 (as stated it fails): on the empty token sequence the builder does not fail with
  \<open>InvalidInput\<close>.
\<close>

theorem build_empty_not_InvalidInput:
  "build_dependency_graph [] \<noteq> Inl InvalidInput"
  by (simp add: build_dependency_graph_def)

text \<open>
  C1 (amended): on the empty token sequence the builder returns the graph with no
  nodes and no edges.
\<close>

theorem build_empty_returns_empty_graph:
  "build_dependency_graph [] = Inr \<lparr>nodes = [], edges = []\<rparr>"
  by (simp add: build_dependency_graph_def DiGraph_def)

subsection \<open>Nodes\<close>

text \<open>
  C2 (as stated it fails): the one-token sentence whose head is 99 has unique ids and is
  not empty, yet the graph has two nodes. Adding the edge from 99 enters 99 as a node.
\<close>

theorem build_node_count_counterexample:
  "dangling_sentence \<noteq> [] \<and> distinct (map token_id dangling_sentence) \<and>
   build_dependency_graph dangling_sentence =
     Inr \<lparr>nodes = [(1, [(''label'', ''X/NOUN'')]), (99, [])],
          edges = [((99, 1), [(''label'', ''dep'')])]\<rparr> \<and>
   length (nodes (projr (build_dependency_graph dangling_sentence))) \<noteq> length dangling_sentence"
  by (simp add: dangling_sentence_def build_defs)

text \<open>
  C2 (amended): for every token sequence with unique ids in which every head that is
  present and not 0 is the id of some token, the graph returned has exactly one node
  per token: as many nodes as tokens, keyed by the tokens' ids.
\<close>

theorem build_node_count:
  assumes "distinct (map token_id ts)"
    and "\<forall>t \<in> set ts. \<forall>h. head t = Some h \<longrightarrow> h \<noteq> 0 \<longrightarrow> h \<in> token_id ` set ts"
  shows "\<exists>g. build_dependency_graph ts = Inr g \<and> length (nodes g) = length ts \<and>
              fst ` set (nodes g) = token_id ` set ts"
proof -
  let ?g = "build_loop ts DiGraph"
  have keys: "fst ` set (nodes ?g) = token_id ` set ts"
    using assms(2) by (auto simp: keys_build_loop DiGraph_def)
  have "distinct (map fst (nodes ?g))"
    by (rule distinct_build_loop) (simp add: DiGraph_def)
  then have "length (nodes ?g) = card (fst ` set (nodes ?g))"
    using distinct_card [of "map fst (nodes ?g)"] by simp
  also have "\<dots> = card (set (map token_id ts))" by (simp add: keys)
  also have "\<dots> = length ts" using distinct_card [OF assms(1)] by simp
  finally show ?thesis
    by (simp add: build_dependency_graph_def keys)
qed

text \<open>
  C2 (amended), at the sentence "Dogs run": both hypotheses hold and the graph has two nodes.
\<close>

theorem build_node_count_witness:
  "distinct (map token_id example_sentence) \<and>
   (\<exists>g. build_dependency_graph example_sentence = Inr g \<and> length (nodes g) = 2 \<and>
        fst ` set (nodes g) = {1, 2})"
proof -
  have d: "distinct (map token_id example_sentence)"
    by (simp add: example_sentence_def)
  have h: "\<forall>t \<in> set example_sentence. \<forall>h. head t = Some h \<longrightarrow> h \<noteq> 0 \<longrightarrow> h \<in> token_id ` set example_sentence"
    by (simp add: example_sentence_def)
  have "length example_sentence = 2" "token_id ` set example_sentence = {1, 2}"
    by (simp_all add: example_sentence_def)
  with build_node_count [OF d h] d show ?thesis by auto
qed

subsection \<open>Edges\<close>

text \<open>
  C3: for every token sequence with unique ids, the graph returned holds, for each token
  whose head is present and not 0, the edge from the head to the token's id with the
  relation as its label; no pair of endpoints occurs twice; the number of edges is the
  number of tokens that pass the test; every edge comes from such a token; and no edge
  ends in a token whose head is 0.
\<close>

theorem build_edges:
  assumes "distinct (map token_id ts)"
  shows "\<exists>g. build_dependency_graph ts = Inr g \<and>
           (\<forall>t \<in> set ts. \<forall>h. head t = Some h \<and> h \<noteq> 0 \<longrightarrow>
               map_of (edges g) (h, token_id t) = Some [(''label'', deprel t)]) \<and>
           distinct (map fst (edges g)) \<and>
           length (edges g) = length (filter has_governor ts) \<and>
           (\<forall>e \<in> set (edges g). \<exists>t \<in> set ts. has_governor t \<and> head t = Some (fst (fst e)) \<and>
               token_id t = snd (fst e) \<and> snd e = [(''label'', deprel t)]) \<and>
           (\<forall>t \<in> set ts. head t = Some 0 \<longrightarrow> (\<forall>e \<in> set (edges g). snd (fst e) \<noteq> token_id t))"
proof -
  let ?g = "build_loop ts DiGraph"
  have e: "edges ?g = dependency_edges ts" by (rule edges_build [OF assms])
  have dist: "distinct (map fst (edges ?g))"
    by (simp add: e distinct_dependency_edges [OF assms])
  have present: "map_of (edges ?g) (h, token_id t) = Some [(''label'', deprel t)]"
    if "t \<in> set ts" "head t = Some h" "h \<noteq> 0" for t h
  proof -
    from that have "((h, token_id t), [(''label'', deprel t)]) \<in> set (edges ?g)"
      unfolding e dependency_edges_iff by blast
    with dist show ?thesis by (rule map_of_is_SomeI)
  qed
  have len: "length (edges ?g) = length (filter has_governor ts)"
    by (simp add: e length_dependency_edges)
  have origin: "\<exists>t \<in> set ts. has_governor t \<and> head t = Some (fst (fst x)) \<and>
                  token_id t = snd (fst x) \<and> snd x = [(''label'', deprel t)]"
    if "x \<in> set (edges ?g)" for x
  proof -
    from that obtain t h where "t \<in> set ts" "head t = Some h" "h \<noteq> 0"
      "x = ((h, token_id t), [(''label'', deprel t)])"
      unfolding e dependency_edges_iff by blast
    then show ?thesis
      by (intro bexI [of _ t]) (simp_all add: has_governor_def)
  qed
  have roots: "snd (fst x) \<noteq> token_id t"
    if "t \<in> set ts" "head t = Some 0" "x \<in> set (edges ?g)" for t x
  proof
    assume eq: "snd (fst x) = token_id t"
    from origin [OF that(3)] obtain t' where t': "t' \<in> set ts" "has_governor t'" "token_id t' = snd (fst x)"
      by blast
    from assms have "inj_on token_id (set ts)" by (simp add: distinct_map)
    with t' that(1) eq have "t' = t" by (auto dest: inj_onD)
    with t'(2) that(2) show False by (simp add: has_governor_def)
  qed
  show ?thesis
    unfolding build_dependency_graph_def
    using present dist len origin roots by (intro exI [of _ ?g] conjI) auto
qed

text \<open>
  C3, at the sentence "Dogs run": the ids are unique, the one edge goes from 2 to 1.
\<close>

theorem build_edges_witness:
  "distinct (map token_id example_sentence) \<and>
   (\<exists>g. build_dependency_graph example_sentence = Inr g \<and>
         map_of (edges g) (2, 1) = Some [(''label'', ''nsubj'')] \<and> length (edges g) = 1)"
proof -
  have d: "distinct (map token_id example_sentence)"
    by (simp add: example_sentence_def)
  from build_edges [OF d] obtain g where g: "build_dependency_graph example_sentence = Inr g"
    and present: "\<forall>t \<in> set example_sentence. \<forall>h. head t = Some h \<and> h \<noteq> 0 \<longrightarrow>
               map_of (edges g) (h, token_id t) = Some [(''label'', deprel t)]"
    and len: "length (edges g) = length (filter has_governor example_sentence)"
    by blast
  from present have "map_of (edges g) (2, 1) = Some [(''label'', ''nsubj'')]"
    by (simp add: example_sentence_def)
  moreover from len have "length (edges g) = 1"
    by (simp add: example_sentence_def has_governor_def)
  ultimately show ?thesis using d g by blast
qed

text \<open>
  C4: in every graph that the builder returns, both endpoints of every edge are nodes of
  the graph, whatever the heads of the tokens are.
\<close>

theorem build_edges_closed:
  "\<exists>g. build_dependency_graph ts = Inr g \<and>
        (\<forall>e \<in> set (edges g). has_node g (fst (fst e)) \<and> has_node g (snd (fst e)))"
proof -
  have "\<forall>k \<in> fst ` set (edges (build_loop ts DiGraph)).
          fst k \<in> fst ` set (nodes (build_loop ts DiGraph)) \<and>
          snd k \<in> fst ` set (nodes (build_loop ts DiGraph))"
    by (rule edges_closed_build_loop) (simp add: DiGraph_def)
  then show ?thesis
    by (simp add: build_dependency_graph_def has_node_def)
qed

text \<open>
  C4, at the sentence whose head 99 names no token: the edge from 99 to 1 is there and
  both 99 and 1 are nodes.
\<close>

theorem build_edges_closed_witness:
  "\<exists>g. build_dependency_graph dangling_sentence = Inr g \<and>
        ((99, 1), [(''label'', ''dep'')]) \<in> set (edges g) \<and> has_node g 99 \<and> has_node g 1"
proof -
  from build_edges_closed [of dangling_sentence] obtain g
    where g: "build_dependency_graph dangling_sentence = Inr g"
      and closed: "\<forall>e \<in> set (edges g). has_node g (fst (fst e)) \<and> has_node g (snd (fst e))"
    by blast
  from g have "((99, 1), [(''label'', ''dep'')]) \<in> set (edges g)"
    by (auto simp: dangling_sentence_def build_defs)
  with closed g show ?thesis by force
qed

text \<open>
  C5: for every token sequence with unique ids and every token in it whose head is 0,
  the graph returned has the token's id as a node and no edge that ends in it.
\<close>

theorem build_root_no_incoming:
  assumes "distinct (map token_id ts)" and "t \<in> set ts" and "head t = Some 0"
  shows "\<exists>g. build_dependency_graph ts = Inr g \<and> has_node g (token_id t) \<and>
              (\<forall>e \<in> set (edges g). snd (fst e) \<noteq> token_id t)"
proof -
  let ?g = "build_loop ts DiGraph"
  have e: "edges ?g = dependency_edges ts" by (rule edges_build [OF assms(1)])
  from assms(2) have node: "has_node ?g (token_id t)"
    by (simp add: has_node_def keys_build_loop)
  have "snd (fst x) \<noteq> token_id t" if "x \<in> set (edges ?g)" for x
  proof
    assume eq: "snd (fst x) = token_id t"
    from that obtain t' h where t': "t' \<in> set ts" "head t' = Some h" "h \<noteq> 0" "token_id t' = snd (fst x)"
      unfolding e dependency_edges_iff by auto
    from assms(1) have "inj_on token_id (set ts)" by (simp add: distinct_map)
    with t'(1,4) assms(2) eq have "t' = t" by (auto dest: inj_onD)
    with t'(2,3) assms(3) show False by simp
  qed
  with node show ?thesis by (simp add: build_dependency_graph_def)
qed

text \<open>
  C5, at the token "run" of the sentence "Dogs run".
\<close>

theorem build_root_no_incoming_witness:
  "distinct (map token_id example_sentence) \<and>
   \<lparr>token_id = 2, form = ''run'', upos = ''VERB'', head = Some 0, deprel = ''root''\<rparr> \<in> set example_sentence \<and>
   (\<exists>g. build_dependency_graph example_sentence = Inr g \<and> has_node g 2 \<and> in_degree g 2 = 0)"
proof -
  let ?t = "\<lparr>token_id = 2, form = ''run'', upos = ''VERB'', head = Some 0, deprel = ''root''\<rparr>"
  have d: "distinct (map token_id example_sentence)"
    by (simp add: example_sentence_def)
  have m: "?t \<in> set example_sentence" by (simp add: example_sentence_def)
  have r: "head ?t = Some 0" by simp
  from build_root_no_incoming [OF d m r] d m show ?thesis
    by (simp add: in_degree_def filter_empty_conv)
qed

text \<open>
  C10: for every token sequence with unique ids, every node of the graph returned has
  at most one incoming edge.
\<close>

theorem build_in_degree:
  assumes "distinct (map token_id ts)"
  shows "\<exists>g. build_dependency_graph ts = Inr g \<and> (\<forall>n. in_degree g n \<le> 1)"
proof -
  have "in_degree (build_loop ts DiGraph) n \<le> 1" for n
  proof -
    have "in_degree (build_loop ts DiGraph) n \<le> length (filter (\<lambda>t. token_id t = n) ts)"
      unfolding in_degree_def edges_build [OF assms] by (rule in_degree_dependency_edges)
    also have "\<dots> \<le> Suc 0" by (rule filter_key_le_one [OF assms])
    finally show ?thesis by simp
  qed
  then show ?thesis by (simp add: build_dependency_graph_def)
qed

text \<open>
  C10, at the sentence "Dogs run".
\<close>

theorem build_in_degree_witness:
  "distinct (map token_id example_sentence) \<and>
   (\<exists>g. build_dependency_graph example_sentence = Inr g \<and> in_degree g 1 \<le> 1 \<and> in_degree g 2 \<le> 1)"
proof -
  have d: "distinct (map token_id example_sentence)"
    by (simp add: example_sentence_def)
  from build_in_degree [OF d] d show ?thesis by blast
qed

section \<open>Properties of the renderer\<close>

lemma perform_returns:
  "perform env made cs = (None, made') \<Longrightarrow> made' = made @ cs"
proof (induction cs arbitrary: made)
  case Nil
  then show ?case by simp
next
  case (Cons c cs)
  from Cons.prems have "perform env (made @ [c]) cs = (None, made')"
    by (simp split: option.splits)
  from Cons.IH [OF this] show ?case by simp
qed

text \<open>
  C7 (as stated it fails): in surroundings where no call raises, rendering the empty
  graph into the directory \<open>out\<close> returns, and among the calls it has made itself are
  the one that writes the picture to \<open>out/dependency_graph_s1.png\<close> and the one that
  shows it on the screen.
\<close>

theorem visualize_graph_saves_and_shows:
  "fst (visualize_graph posixpath_join no_failure DiGraph ''s1'' ''out'') = None \<and>
   PltSavefig ''out/dependency_graph_s1.png'' ''png'' 300
     \<in> set (snd (visualize_graph posixpath_join no_failure DiGraph ''s1'' ''out'')) \<and>
   PltShow \<in> set (snd (visualize_graph posixpath_join no_failure DiGraph ''s1'' ''out''))"
  by (simp add: visualize_graph_def try_block_def no_failure_def posixpath_join_def Let_def)

text \<open>
  C7 (amended): \<^verbatim>\<open>visualize_graph\<close> returns no artifact, and a call that returns has
  made exactly the following calls, in this order, whatever the surroundings: it has
  asked for the output directory, laid out and drawn the graph with its node and edge
  labels, saved the picture as PNG with 300 dots per inch under
  \<open>join output_dir ("dependency_graph_" + sent_id + ".png")\<close>, logged the saving, shown
  the picture and closed it. Saving and showing are done by the function itself.
\<close>

theorem visualize_graph_calls:
  assumes "visualize_graph join env G sent_id output_dir = (None, made)"
  shows "made =
     [Makedirs output_dir,
      SpringLayout G,
      PltFigure (12, 8),
      DrawNodes G,
      DrawEdges G,
      DrawLabels (get_node_attributes G ''label''),
      DrawEdgeLabels (get_edge_attributes G ''label''),
      PltTitle (''Dependency Graph for Sentence ID: '' @ sent_id),
      PltAxisOff,
      PltTightLayout,
      PltSavefig (join output_dir (''dependency_graph_'' @ sent_id @ ''.png'')) ''png'' 300,
      LoggerInfo (''Saved graph to '' @ join output_dir (''dependency_graph_'' @ sent_id @ ''.png'')),
      PltShow,
      PltClose]"
proof -
  obtain r made' where p: "perform env [] (try_block join G sent_id output_dir) = (r, made')"
    by (cases "perform env [] (try_block join G sent_id output_dir)")
  show ?thesis
  proof (cases r)
    case None
    with p assms have "made' = made" by (simp add: visualize_graph_def)
    moreover from p None have "perform env [] (try_block join G sent_id output_dir) = (None, made')"
      by simp
    then have "made' = [] @ try_block join G sent_id output_dir"
      by (rule perform_returns)
    ultimately show ?thesis by (simp add: try_block_def Let_def)
  next
    case (Some e)
    with p assms show ?thesis
      by (simp add: visualize_graph_def split: option.splits)
  qed
qed

text \<open>
  C7 (amended), at the graph of the sentence "Dogs run" in surroundings where no call
  raises: the call returns, the labels handed to the drawing calls are those of the two
  nodes and of the one edge, and the picture is saved and shown.
\<close>

theorem visualize_graph_calls_witness:
  "visualize_graph posixpath_join no_failure (build_loop example_sentence DiGraph) ''s1'' ''out'' =
     (None,
      [Makedirs ''out'',
       SpringLayout (build_loop example_sentence DiGraph),
       PltFigure (12, 8),
       DrawNodes (build_loop example_sentence DiGraph),
       DrawEdges (build_loop example_sentence DiGraph),
       DrawLabels [(1, ''Dogs/NOUN''), (2, ''run/VERB'')],
       DrawEdgeLabels [((2, 1), ''nsubj'')],
       PltTitle ''Dependency Graph for Sentence ID: s1'',
       PltAxisOff,
       PltTightLayout,
       PltSavefig ''out/dependency_graph_s1.png'' ''png'' 300,
       LoggerInfo ''Saved graph to out/dependency_graph_s1.png'',
       PltShow,
       PltClose])"
proof -
  have r: "visualize_graph posixpath_join no_failure (build_loop example_sentence DiGraph) ''s1'' ''out'' =
     (None, snd (visualize_graph posixpath_join no_failure (build_loop example_sentence DiGraph) ''s1'' ''out''))"
    by (simp add: visualize_graph_def try_block_def no_failure_def Let_def)
  have g: "build_loop example_sentence DiGraph =
     \<lparr>nodes = [(1, [(''label'', ''Dogs/NOUN'')]), (2, [(''label'', ''run/VERB'')])],
      edges = [((2, 1), [(''label'', ''nsubj'')])]\<rparr>"
    by (simp add: example_sentence_def build_defs)
  have n: "get_node_attributes (build_loop example_sentence DiGraph) ''label'' =
             [(1, ''Dogs/NOUN''), (2, ''run/VERB'')]"
    by (simp add: g get_node_attributes_def get_attributes_def List.map_filter_simps)
  have e: "get_edge_attributes (build_loop example_sentence DiGraph) ''label'' = [((2, 1), ''nsubj'')]"
    by (simp add: g get_edge_attributes_def get_attributes_def List.map_filter_simps)
  have j: "posixpath_join ''out'' (''dependency_graph_'' @ ''s1'' @ ''.png'') = ''out/dependency_graph_s1.png''"
    by (simp add: posixpath_join_def)
  from visualize_graph_calls [OF r] have
    "snd (visualize_graph posixpath_join no_failure (build_loop example_sentence DiGraph) ''s1'' ''out'') =
       [Makedirs ''out'',
        SpringLayout (build_loop example_sentence DiGraph),
        PltFigure (12, 8),
        DrawNodes (build_loop example_sentence DiGraph),
        DrawEdges (build_loop example_sentence DiGraph),
        DrawLabels [(1, ''Dogs/NOUN''), (2, ''run/VERB'')],
        DrawEdgeLabels [((2, 1), ''nsubj'')],
        PltTitle ''Dependency Graph for Sentence ID: s1'',
        PltAxisOff,
        PltTightLayout,
        PltSavefig ''out/dependency_graph_s1.png'' ''png'' 300,
        LoggerInfo ''Saved graph to out/dependency_graph_s1.png'',
        PltShow,
        PltClose]"
    unfolding n e j by simp
  with r show ?thesis by simp
qed

end
